theory Spec2Isabelle
  imports Main "HOL-Library.Word"
begin

section \<open>Memory blocks\<close>

text \<open>
  A \<open>memory_block\<close> is an immutable range of bytes. Only its contents are modelled: a
  block is the list of its bytes (\<open>char\<close> is the 8-bit byte of HOL), so sharing a
  sub-range and copying it give equal values, and reference counting is not represented.
\<close>

type_synonym memory_block = string

text \<open>
  \<open>Record_Error n\<close> is \<open>record_error\<close> of \<open>record_reader.cc\<close>; \<open>n\<close> is the number its
  message formats ("The stream ends with a partial record of n byte(s).").
  \<open>Out_Of_Range\<close> is the failure of a sub-range request outside its block.
  \<open>Memory_Fault\<close> stands for a read or write of \<open>std::copy\<close> outside a buffer, which in
  C++ is undefined behaviour. \<open>Tape_Corrupt\<close> is a tape read of the wrong type or past the
  end of the tape.
\<close>

datatype error = Record_Error nat | Out_Of_Range | Memory_Fault | Tape_Corrupt

text \<open>
  Modelled from the spec: \<open>memory_block.h\<close> is not among the sources. The two-argument
  \<open>share_slice(offset, length)\<close> requires \<open>offset + length \<le> size\<close> and fails with
  \<open>Out_Of_Range\<close> otherwise; \<open>share_first(length)\<close> and the one-argument
  \<open>share_slice(offset)\<close> (the spec's \<open>share_from\<close>) are its convenience forms.
\<close>

definition share_slice2 :: "memory_block \<Rightarrow> nat \<Rightarrow> nat \<Rightarrow> error + memory_block" where
  "share_slice2 b offset len =
     (if offset + len \<le> length b then Inr (take len (drop offset b)) else Inl Out_Of_Range)"

definition share_first :: "memory_block \<Rightarrow> nat \<Rightarrow> error + memory_block" where
  "share_first b len = share_slice2 b 0 len"

definition share_slice :: "memory_block \<Rightarrow> nat \<Rightarrow> error + memory_block" where
  "share_slice b offset =
     (if offset \<le> length b then share_slice2 b offset (length b - offset) else Inl Out_Of_Range)"

text \<open>
  Modelled from the spec: \<open>allocate_memory(size)\<close> gives fresh storage of \<open>size\<close> bytes.
  Its bytes are uninitialised in C++; the model fills them with zero bytes.
\<close>

definition allocate_memory :: "nat \<Rightarrow> memory_block" where
  "allocate_memory n = replicate n (CHR 0x00)"

text \<open>
  \<open>iter = std::copy(block.begin(), block.end(), iter)\<close>: the bytes of \<open>src\<close> overwrite the
  buffer from position \<open>iter\<close> on, and the position after the last byte written is
  returned. Writing past the end of the buffer is the fault \<open>Memory_Fault\<close>.
\<close>

definition copy_to :: "memory_block \<Rightarrow> memory_block \<times> nat \<Rightarrow> error + memory_block \<times> nat" where
  "copy_to src w =
     (case w of (buf, iter) \<Rightarrow>
        if iter + length src \<le> length buf
        then Inr (take iter buf @ src @ drop (iter + length src) buf, iter + length src)
        else Inl Memory_Fault)"

section \<open>The chunked stream\<close>

text \<open>
  The stream is an external collaborator. It is modelled by the chunks it has still to
  deliver, finitely many: \<open>read_chunk\<close> hands out the next one, and an empty block once
  there is none. An empty block is the end of the input to the reader, so the chunks of
  an input are non-empty.
\<close>

type_synonym byte_stream = "memory_block list"

definition read_chunk :: "byte_stream \<Rightarrow> memory_block \<times> byte_stream" where
  "read_chunk s = (case s of [] \<Rightarrow> ([], []) | c # cs \<Rightarrow> (c, cs))"

section \<open>The record reader\<close>

text \<open>
  \<open>find_record_end(chunk, first_chunk)\<close> is pure virtual in \<open>record_reader\<close>; the reader is
  parametrised by it.
\<close>

type_synonym find_record_end = "memory_block \<Rightarrow> bool \<Rightarrow> nat option"

record record_reader =
  stream :: byte_stream
  current_chunk :: memory_block
  previous_chunks :: "memory_block list"
  record_length :: nat
  record_end_offset :: nat

definition new_record_reader :: "byte_stream \<Rightarrow> record_reader" where
  "new_record_reader s =
     \<lparr>stream = s, current_chunk = [], previous_chunks = [], record_length = 0,
      record_end_offset = 0\<rparr>"

text \<open>
  The \<open>while\<close> loop of \<open>load_next_record\<close>. \<open>Inr (True, st)\<close> is \<open>return true\<close>,
  \<open>Inr (False, st)\<close> is \<open>return false\<close>, \<open>Inl\<close> is the \<open>throw\<close>.
\<close>

function load_loop :: "find_record_end \<Rightarrow> bool \<Rightarrow> record_reader \<Rightarrow> error + bool \<times> record_reader" where
  "load_loop f first_chunk st =
     (case f (current_chunk st) first_chunk of
        Some record_end \<Rightarrow>
          Inr (True, st\<lparr>record_length := record_length st + record_end,
                        record_end_offset := record_end\<rparr>)
      | None \<Rightarrow>
          (case read_chunk (stream st) of (next_chunk, s') \<Rightarrow>
             if next_chunk = [] then
               (if current_chunk st = [] then Inr (False, st\<lparr>stream := s'\<rparr>)
                else Inl (Record_Error (length (current_chunk st))))
             else
               load_loop f False
                 (st\<lparr>stream := s',
                     record_length := record_length st + length (current_chunk st),
                     previous_chunks := previous_chunks st @ [current_chunk st],
                     current_chunk := next_chunk\<rparr>)))"
  by pat_completeness auto
termination
  by (relation "measure (\<lambda>(f, first_chunk, st). length (stream st))")
     (auto simp: read_chunk_def split: list.splits)

definition load_next_record :: "find_record_end \<Rightarrow> record_reader \<Rightarrow> error + bool \<times> record_reader" where
  "load_next_record f st = load_loop f True (st\<lparr>record_length := 0\<rparr>)"

fun copy_chunks :: "memory_block list \<Rightarrow> memory_block \<times> nat \<Rightarrow> error + memory_block \<times> nat" where
  "copy_chunks [] w = Inr w"
| "copy_chunks (block # blocks) w =
     (case copy_to block w of Inl e \<Rightarrow> Inl e | Inr w' \<Rightarrow> copy_chunks blocks w')"

definition copy_split_record :: "record_reader \<Rightarrow> error + memory_block" where
  "copy_split_record st =
     (case copy_chunks (previous_chunks st) (allocate_memory (record_length st), 0) of
        Inl e \<Rightarrow> Inl e
      | Inr w \<Rightarrow>
          if record_end_offset st \<le> length (current_chunk st) then
            (case copy_to (take (record_end_offset st) (current_chunk st)) w of
               Inl e \<Rightarrow> Inl e
             | Inr (record, iter) \<Rightarrow> Inr record)
          else Inl Memory_Fault)"

definition extract_record :: "record_reader \<Rightarrow> error + memory_block" where
  "extract_record st =
     (if previous_chunks st = [] then share_first (current_chunk st) (record_length st)
      else copy_split_record st)"

definition move_to_next_record :: "record_reader \<Rightarrow> error + record_reader" where
  "move_to_next_record st =
     (case share_slice (current_chunk st) (record_end_offset st) of
        Inl e \<Rightarrow> Inl e
      | Inr rest \<Rightarrow> Inr (st\<lparr>current_chunk := rest, previous_chunks := []\<rparr>))"

text \<open>
  \<open>record_reader::next\<close>. The empty block \<open>[]\<close> is the \<open>return {}\<close> that signals the end
  of the data.
\<close>

definition record_reader_next :: "find_record_end \<Rightarrow> record_reader \<Rightarrow> error + memory_block \<times> record_reader" where
  "record_reader_next f st =
     (case load_next_record f st of
        Inl e \<Rightarrow> Inl e
      | Inr (found, st1) \<Rightarrow>
          if \<not> found then Inr ([], st1)
          else
            (case extract_record st1 of
               Inl e \<Rightarrow> Inl e
             | Inr record \<Rightarrow>
                 (case move_to_next_record st1 of
                    Inl e \<Rightarrow> Inl e
                  | Inr st2 \<Rightarrow> Inr (record, st2))))"

definition record_reader_reset :: "byte_stream \<Rightarrow> record_reader \<Rightarrow> record_reader" where
  "record_reader_reset rewound st =
     st\<lparr>current_chunk := [], previous_chunks := [], stream := rewound\<rparr>"

subsection \<open>The line-delimited boundary strategy\<close>

text \<open>
  Modelled from the spec: the subclass that overrides \<open>find_record_end\<close> is not among the
  sources. The record end is found when the delimiter byte occurs in the chunk; the
  offset is the position of its first occurrence plus one. The flag is not used.
\<close>

fun find_byte :: "char \<Rightarrow> memory_block \<Rightarrow> nat option" where
  "find_byte d [] = None"
| "find_byte d (c # cs) = (if c = d then Some 0 else map_option Suc (find_byte d cs))"

definition find_line_end :: "char \<Rightarrow> find_record_end" where
  "find_line_end d chunk first_chunk = map_option Suc (find_byte d chunk)"

subsection \<open>Two further boundary strategies\<close>

text \<open>
  \<open>find_record_end\<close> may be overridden by any function of the chunk and the flag. Two such
  functions, neither of them in the sources, show what the reader does with a strategy
  other than the line-delimited one. \<open>find_crlf_end\<close> finds the two-byte line ending
  carriage return, line feed inside the chunk it is given; the offset is the position of
  the line feed plus one. \<open>find_empty_record\<close> reports a record end at offset 0 in every
  chunk.
\<close>

fun find_crlf :: "memory_block \<Rightarrow> nat option" where
  "find_crlf (c # c' # cs) =
     (if c = CHR 0x0D \<and> c' = CHR 0x0A then Some 2 else map_option Suc (find_crlf (c' # cs)))"
| "find_crlf cs = None"

definition find_crlf_end :: find_record_end where
  "find_crlf_end chunk first_chunk = find_crlf chunk"

definition find_empty_record :: find_record_end where
  "find_empty_record chunk first_chunk = Some 0"

subsection \<open>The records of an unfragmented input\<close>

text \<open>
  What the line-delimited reader is to produce, stated on the whole input rather than on
  its chunks: \<open>records_of d [] s\<close> cuts \<open>s\<close> after each delimiter byte, so every record
  ends with its delimiter, and \<open>partial_record d [] s\<close> is what remains after the last
  delimiter. \<open>acc\<close> holds the bytes of the record under way.
\<close>

fun records_of :: "char \<Rightarrow> string \<Rightarrow> string \<Rightarrow> string list" where
  "records_of d acc [] = []"
| "records_of d acc (c # cs) =
     (if c = d then (acc @ [c]) # records_of d [] cs else records_of d (acc @ [c]) cs)"

fun partial_record :: "char \<Rightarrow> string \<Rightarrow> string \<Rightarrow> string" where
  "partial_record d acc [] = acc"
| "partial_record d acc (c # cs) =
     (if c = d then partial_record d [] cs else partial_record d (acc @ [c]) cs)"

section \<open>Splitting an immutable string\<close>

text \<open>
  An \<open>immutable_string\<close> wraps the memory block \<open>storage_\<close>; \<open>view()\<close> reads the same
  bytes. Modelled from the spec: \<open>remove_prefix(n)\<close>, declared in the header that is not
  among the sources, is the zero-copy view of the bytes from \<open>n\<close> on.
\<close>

definition remove_prefix :: "memory_block \<Rightarrow> nat \<Rightarrow> error + memory_block" where
  "remove_prefix s n = share_slice s n"

text \<open>
  The \<open>for\<close> loop of \<open>split(separator, handler)\<close> and the \<open>if\<close> that follows it. The
  handler of \<open>split(separator)\<close> appends each part to \<open>output\<close>, so the model carries
  \<open>output\<close> along.
\<close>

function split_loop :: "char \<Rightarrow> memory_block \<Rightarrow> nat \<Rightarrow> nat \<Rightarrow> memory_block list \<Rightarrow> error + memory_block list" where
  "split_loop separator s char_idx offset output =
     (if char_idx < length s then
        (if s ! char_idx = separator then
           (if offset \<noteq> char_idx then
              (case share_slice2 s offset (char_idx - offset) of
                 Inl e \<Rightarrow> Inl e
               | Inr part \<Rightarrow> split_loop separator s (char_idx + 1) (char_idx + 1) (output @ [part]))
            else split_loop separator s (char_idx + 1) (char_idx + 1) output)
         else split_loop separator s (char_idx + 1) offset output)
      else
        (if offset \<noteq> length s then
           (case remove_prefix s offset of
              Inl e \<Rightarrow> Inl e
            | Inr part \<Rightarrow> Inr (output @ [part]))
         else Inr output))"
  by pat_completeness auto
termination
  by (relation "measure (\<lambda>(separator, s, char_idx, offset, output). length s - char_idx)") auto

definition immutable_string_split :: "char \<Rightarrow> memory_block \<Rightarrow> error + memory_block list" where
  "immutable_string_split separator s = split_loop separator s 0 0 []"

text \<open>
  The specification of \<open>split\<close>, in the spec's words: the runs of bytes between the
  occurrences of the separator (\<open>runs_between\<close>, the empty ones included), of which the
  non-empty ones are kept. \<open>join_runs\<close> puts the separator back between the runs.
\<close>

fun runs_between :: "char \<Rightarrow> string \<Rightarrow> string list" where
  "runs_between separator [] = [[]]"
| "runs_between separator (c # cs) =
     (if c = separator then [] # runs_between separator cs
      else (case runs_between separator cs of
              [] \<Rightarrow> [[c]]
            | run # runs \<Rightarrow> (c # run) # runs))"

fun join_runs :: "char \<Rightarrow> string list \<Rightarrow> string" where
  "join_runs separator [] = []"
| "join_runs separator [run] = run"
| "join_runs separator (run # runs) = run @ separator # join_runs separator runs"

section \<open>The counting data source and the tape\<close>

text \<open>
  \<open>data\<close> holds what the claims need of the variant type of \<open>data.h\<close>: an integer and a
  dictionary. \<open>counter_\<close> is a \<open>std::int64_t\<close>, a 64-bit word; \<open>counter_++\<close> at the largest
  value is undefined in C++ and wraps around in the model.
\<close>

datatype data = Int64 "64 word" | Data_Dict "(string \<times> data) list"

record count_data_source =
  start :: "64 word"
  field_name :: "string option"
  counter :: "64 word"

definition new_count_data_source :: "64 word \<Rightarrow> string option \<Rightarrow> count_data_source" where
  "new_count_data_source start_value name =
     \<lparr>start = start_value, field_name = name, counter = start_value\<rparr>"

definition count_data_source_next :: "count_data_source \<Rightarrow> data option \<times> count_data_source" where
  "count_data_source_next src =
     (case field_name src of
        Some name \<Rightarrow>
          (Some (Data_Dict [(name, Int64 (counter src))]), src\<lparr>counter := counter src + 1\<rparr>)
      | None \<Rightarrow> (Some (Int64 (counter src)), src\<lparr>counter := counter src + 1\<rparr>))"

definition count_data_source_reset :: "count_data_source \<Rightarrow> count_data_source" where
  "count_data_source_reset src = src\<lparr>counter := start src\<rparr>"

text \<open>
  Modelled from the spec: the tape class is not among the sources. A tape is an ordered
  sequence of values with a read cursor; \<open>record\<close> appends a value, \<open>read<int64>\<close> returns
  the value under the cursor and moves the cursor on, and fails when there is no value
  left or the value is not an integer.
\<close>

record tape =
  storage :: "data list"
  read_cursor :: nat

definition new_tape :: tape where
  "new_tape = \<lparr>storage = [], read_cursor = 0\<rparr>"

definition tape_record :: "data \<Rightarrow> tape \<Rightarrow> tape" where
  "tape_record d t = t\<lparr>storage := storage t @ [d]\<rparr>"

definition tape_read_int64 :: "tape \<Rightarrow> error + 64 word \<times> tape" where
  "tape_read_int64 t =
     (if read_cursor t < length (storage t) then
        (case storage t ! read_cursor t of
           Int64 v \<Rightarrow> Inr (v, t\<lparr>read_cursor := read_cursor t + 1\<rparr>)
         | Data_Dict entries \<Rightarrow> Inl Tape_Corrupt)
      else Inl Tape_Corrupt)"

definition tape_rewind :: "tape \<Rightarrow> tape" where
  "tape_rewind t = t\<lparr>read_cursor := 0\<rparr>"

definition record_position :: "count_data_source \<Rightarrow> tape \<Rightarrow> tape" where
  "record_position src t = tape_record (Int64 (counter src)) t"

definition reload_position :: "count_data_source \<Rightarrow> tape \<Rightarrow> error + count_data_source \<times> tape" where
  "reload_position src t =
     (case tape_read_int64 t of
        Inl e \<Rightarrow> Inl e
      | Inr (v, t') \<Rightarrow> Inr (src\<lparr>counter := v\<rparr>, t'))"

text \<open>
  \<open>produce n src\<close> calls \<open>next\<close> \<open>n\<close> times and collects what it returns, with the source
  as the last call left it.
\<close>

fun produce :: "nat \<Rightarrow> count_data_source \<Rightarrow> data option list \<times> count_data_source" where
  "produce 0 src = ([], src)"
| "produce (Suc n) src =
     (case count_data_source_next src of
        (v, src') \<Rightarrow> (case produce n src' of (vs, src'') \<Rightarrow> (v # vs, src'')))"

section \<open>Draining a record reader\<close>

text \<open>
  Modelled from the spec: a full drain is the caller's loop, which calls \<open>next\<close> until it
  returns the empty block or throws, and collects the records returned before.
\<close>

datatype drain_end = End_Of_Sequence | Failed error

function drain :: "find_record_end \<Rightarrow> record_reader \<Rightarrow> memory_block list \<times> drain_end" where
  "drain f st =
     (case record_reader_next f st of
        Inl e \<Rightarrow> ([], Failed e)
      | Inr (record, st') \<Rightarrow>
          if record = [] then ([], End_Of_Sequence)
          else (case drain f st' of (records, e) \<Rightarrow> (record # records, e)))"
  by pat_completeness auto

text \<open>
  The drain terminates: each record returned uses up a chunk of the stream or bytes of
  the current chunk.
\<close>

lemma copy_to_length: "copy_to src w = Inr w' \<Longrightarrow> length (fst w') = length (fst w)"
  by (auto simp: copy_to_def split: prod.splits if_splits)

lemma copy_chunks_length: "copy_chunks bs w = Inr w' \<Longrightarrow> length (fst w') = length (fst w)"
proof (induction bs arbitrary: w)
  case Nil
  then show ?case by simp
next
  case (Cons b bs)
  then show ?case
    by (auto split: sum.splits dest: copy_to_length)
qed

lemma copy_split_record_length:
  "copy_split_record st = Inr r \<Longrightarrow> length r = record_length st"
  by (auto simp: copy_split_record_def allocate_memory_def split: sum.splits if_splits prod.splits
      dest!: copy_chunks_length copy_to_length)

lemma share_first_Inr: "share_first b n = Inr r \<Longrightarrow> n \<le> length b \<and> r = take n b"
  by (auto simp: share_first_def share_slice2_def split: if_splits)

lemma share_slice_Inr: "share_slice b n = Inr r \<Longrightarrow> n \<le> length b \<and> r = drop n b"
  by (auto simp: share_slice_def share_slice2_def split: if_splits)

lemma extract_record_length:
  "extract_record st = Inr r \<Longrightarrow> length r = record_length st"
  by (auto simp: extract_record_def split: if_splits dest: share_first_Inr copy_split_record_length)

lemma load_loop_progress:
  "load_loop f b st = Inr (True, st1) \<Longrightarrow>
     (stream st1 = stream st \<and> current_chunk st1 = current_chunk st \<and>
      record_length st1 = record_length st + record_end_offset st1)
     \<or> length (stream st1) < length (stream st)"
proof (induction f b st rule: load_loop.induct)
  case (1 f first_chunk st)
  show ?case
  proof (cases "f (current_chunk st) first_chunk")
    case (Some k)
    with "1.prems" show ?thesis by auto
  next
    case None
    obtain c s' where rc: "read_chunk (stream st) = (c, s')"
      by (cases "read_chunk (stream st)")
    show ?thesis
    proof (cases "c = []")
      case True
      with None rc "1.prems" show ?thesis
        by (auto split: if_splits)
    next
      case False
      from rc False have len: "length s' < length (stream st)"
        by (auto simp: read_chunk_def split: list.splits)
      from "1.IH"[OF None rc[symmetric] False] "1.prems" None rc False len
      show ?thesis by auto
    qed
  qed
qed

lemma next_progress:
  assumes "record_reader_next f st = Inr (r, st')" and "r \<noteq> []"
  shows "length (stream st') < length (stream st) \<or>
         (length (stream st') = length (stream st) \<and>
          length (current_chunk st') < length (current_chunk st))"
proof -
  from assms obtain st1 where
    l: "load_loop f True (st\<lparr>record_length := 0\<rparr>) = Inr (True, st1)" and
    e: "extract_record st1 = Inr r" and
    m: "move_to_next_record st1 = Inr st'"
    by (auto simp: record_reader_next_def load_next_record_def
        split: sum.splits prod.splits if_splits)
  from m have st': "stream st' = stream st1"
    "current_chunk st' = drop (record_end_offset st1) (current_chunk st1)"
    "record_end_offset st1 \<le> length (current_chunk st1)"
    by (auto simp: move_to_next_record_def split: sum.splits dest: share_slice_Inr)
  from extract_record_length[OF e] assms(2) have pos: "0 < record_length st1"
    by (cases r) auto
  from load_loop_progress[OF l] show ?thesis
  proof
    assume a: "stream st1 = stream (st\<lparr>record_length := 0\<rparr>) \<and>
      current_chunk st1 = current_chunk (st\<lparr>record_length := 0\<rparr>) \<and>
      record_length st1 = record_length (st\<lparr>record_length := 0\<rparr>) + record_end_offset st1"
    with pos have "0 < record_end_offset st1" by simp
    with a st' show ?thesis by simp
  next
    assume "length (stream st1) < length (stream (st\<lparr>record_length := 0\<rparr>))"
    with st' show ?thesis by simp
  qed
qed

termination drain
  by (relation "measures [\<lambda>(f, st). length (stream st), \<lambda>(f, st). length (current_chunk st)]")
     (auto dest: next_progress)

section \<open>Properties of the record reader\<close>

subsection \<open>Copying and loading, for any boundary strategy\<close>




lemma load_loop_found:
  "load_loop f b st = Inr (True, st1) \<Longrightarrow>
   \<exists>new b'. previous_chunks st1 = previous_chunks st @ new \<and>
     record_length st1 = record_length st + length (concat new) + record_end_offset st1 \<and>
     concat new @ current_chunk st1 @ concat (stream st1) = current_chunk st @ concat (stream st) \<and>
     f (current_chunk st1) b' = Some (record_end_offset st1) \<and>
     set (stream st1) \<subseteq> set (stream st) \<and>
     (\<forall>c \<in> set new. \<exists>b''. f c b'' = None)"
proof (induction f b st rule: load_loop.induct)
  case (1 f first_chunk st)
  show ?case
  proof (cases "f (current_chunk st) first_chunk")
    case (Some k)
    with "1.prems" have "st1 = st\<lparr>record_length := record_length st + k, record_end_offset := k\<rparr>"
      by auto
    with Some show ?thesis by (intro exI[of _ "[]"] exI[of _ first_chunk]) simp
  next
    case None
    obtain c s' where rc: "read_chunk (stream st) = (c, s')"
      by (cases "read_chunk (stream st)")
    show ?thesis
    proof (cases "c = []")
      case True
      with None rc "1.prems" show ?thesis
        by (auto split: if_splits)
    next
      case False
      from rc False have str: "stream st = c # s'"
        by (auto simp: read_chunk_def split: list.splits)
      let ?st2 = "st\<lparr>stream := s',
                     record_length := record_length st + length (current_chunk st),
                     previous_chunks := previous_chunks st @ [current_chunk st],
                     current_chunk := c\<rparr>"
      from "1.prems" None rc False have "load_loop f False ?st2 = Inr (True, st1)"
        by simp
      from "1.IH"[OF None rc[symmetric] False this]
      obtain new b' where n: "previous_chunks st1 = previous_chunks ?st2 @ new"
        "record_length st1 = record_length ?st2 + length (concat new) + record_end_offset st1"
        "concat new @ current_chunk st1 @ concat (stream st1) = current_chunk ?st2 @ concat (stream ?st2)"
        "f (current_chunk st1) b' = Some (record_end_offset st1)"
        "set (stream st1) \<subseteq> set (stream ?st2)"
        "\<forall>c \<in> set new. \<exists>b''. f c b'' = None"
        by blast
      show ?thesis
        using n str None
        by (intro exI[of _ "current_chunk st # new"] exI[of _ b']) auto
    qed
  qed
qed

lemma load_loop_not_end:
  "current_chunk st \<noteq> [] \<Longrightarrow> load_loop f b st \<noteq> Inr (False, st')"
proof (induction f b st rule: load_loop.induct)
  case (1 f first_chunk st)
  show ?case
  proof (cases "f (current_chunk st) first_chunk")
    case (Some k)
    then show ?thesis by simp
  next
    case None
    obtain c s' where rc: "read_chunk (stream st) = (c, s')"
      by (cases "read_chunk (stream st)")
    show ?thesis
    proof (cases "c = []")
      case True
      with None rc "1.prems" show ?thesis by simp
    next
      case False
      from "1.IH"[OF None rc[symmetric] False] False None rc show ?thesis
        by simp
    qed
  qed
qed

lemma load_next_record_end_iff:
  "(\<exists>st'. load_next_record f st = Inr (False, st')) =
   (f (current_chunk st) True = None \<and> fst (read_chunk (stream st)) = [] \<and> current_chunk st = [])"
proof (cases "f (current_chunk st) True")
  case (Some k)
  then show ?thesis by (simp add: load_next_record_def)
next
  case None
  obtain c s' where rc: "read_chunk (stream st) = (c, s')"
    by (cases "read_chunk (stream st)")
  show ?thesis
  proof (cases "c = []")
    case True
    with None rc show ?thesis by (simp add: load_next_record_def)
  next
    case False
    let ?st2 = "st\<lparr>record_length := 0, stream := s',
                     record_length := 0 + length (current_chunk st),
                     previous_chunks := previous_chunks st @ [current_chunk st],
                     current_chunk := c\<rparr>"
    have "load_loop f False ?st2 \<noteq> Inr (False, st')" for st'
      using False by (intro load_loop_not_end) simp
    with None rc False show ?thesis
      by (simp add: load_next_record_def)
  qed
qed

lemma load_next_record_end:
  assumes "f (current_chunk st) True = None" "fst (read_chunk (stream st)) = []" "current_chunk st = []"
  shows "load_next_record f st = Inr (False, st\<lparr>record_length := 0, stream := snd (read_chunk (stream st))\<rparr>)"
  using assms by (cases "read_chunk (stream st)") (simp add: load_next_record_def)

lemma next_found:
  assumes "load_next_record f st = Inr (True, st1)" and "record_reader_next f st = Inr (r, st')"
  shows "extract_record st1 = Inr r" and "move_to_next_record st1 = Inr st'"
  using assms by (auto simp: record_reader_next_def split: sum.splits)



text \<open>
  Claim C6, as the spec states it, fails: \<open>next\<close> returns a \<open>memory_block\<close>, so a record of
  no bytes is the same value as the end-of-data signal. With a strategy that reports the
  offset 0, \<open>next\<close> over the stream of the one chunk \<open>"ab"\<close> returns the empty block although
  no chunk was pulled and the stream still holds \<open>"ab"\<close>.
\<close>

theorem end_of_sequence_counterexample:
  "record_reader_next find_empty_record (new_record_reader [''ab'']) =
     Inr ([], new_record_reader [''ab''])
   \<and> find_empty_record (current_chunk (new_record_reader [''ab''])) True = Some 0
   \<and> fst (read_chunk (stream (new_record_reader [''ab'']))) = ''ab''"
  by (simp add: record_reader_next_def load_next_record_def new_record_reader_def
      find_empty_record_def read_chunk_def extract_record_def share_first_def
      move_to_next_record_def share_slice_def share_slice2_def)

text \<open>
  Claim C6, amended. For every boundary strategy that never reports the offset 0, \<open>next\<close>
  returns the empty block, the end-of-sequence signal, if and only if a chunk is pulled
  (the current chunk holds no record end), the pulled chunk is empty and the current
  chunk is empty. For every boundary strategy, in that case \<open>next\<close> returns the empty block
  and no error, so a clean end of the input between records is never reported as a
  truncated record; and that case is exactly the one in which \<open>load_next_record\<close> returns
  \<open>false\<close>. After the first pull the current chunk is never empty, so the case is decided
  at the first pull.
\<close>

theorem end_of_sequence_iff:
  "((\<exists>st'. load_next_record f st = Inr (False, st')) =
      (f (current_chunk st) True = None \<and> fst (read_chunk (stream st)) = [] \<and>
       current_chunk st = []))
   \<and> (f (current_chunk st) True = None \<and> fst (read_chunk (stream st)) = [] \<and>
       current_chunk st = [] \<longrightarrow>
        record_reader_next f st =
          Inr ([], st\<lparr>record_length := 0, stream := snd (read_chunk (stream st))\<rparr>))
   \<and> ((\<forall>chunk first_chunk. f chunk first_chunk \<noteq> Some 0) \<longrightarrow>
        (\<exists>st'. record_reader_next f st = Inr ([], st')) =
          (f (current_chunk st) True = None \<and> fst (read_chunk (stream st)) = [] \<and>
           current_chunk st = []))"
proof (intro conjI impI)
  show "(\<exists>st'. load_next_record f st = Inr (False, st')) =
      (f (current_chunk st) True = None \<and> fst (read_chunk (stream st)) = [] \<and>
       current_chunk st = [])"
    by (rule load_next_record_end_iff)
next
  assume "f (current_chunk st) True = None \<and> fst (read_chunk (stream st)) = [] \<and>
       current_chunk st = []"
  then have "load_next_record f st =
      Inr (False, st\<lparr>record_length := 0, stream := snd (read_chunk (stream st))\<rparr>)"
    by (intro load_next_record_end) auto
  then show "record_reader_next f st =
          Inr ([], st\<lparr>record_length := 0, stream := snd (read_chunk (stream st))\<rparr>)"
    by (simp add: record_reader_next_def)
next
  assume pos: "\<forall>chunk first_chunk. f chunk first_chunk \<noteq> Some 0"
  let ?cond = "f (current_chunk st) True = None \<and> fst (read_chunk (stream st)) = [] \<and>
           current_chunk st = []"
  show "(\<exists>st'. record_reader_next f st = Inr ([], st')) = ?cond"
  proof
    assume ?cond
    then have "load_next_record f st =
      Inr (False, st\<lparr>record_length := 0, stream := snd (read_chunk (stream st))\<rparr>)"
      by (intro load_next_record_end) auto
    then show "\<exists>st'. record_reader_next f st = Inr ([], st')"
      by (simp add: record_reader_next_def)
  next
    assume "\<exists>st'. record_reader_next f st = Inr ([], st')"
    then obtain st' where n: "record_reader_next f st = Inr ([], st')" ..
    then obtain found st1 where l: "load_next_record f st = Inr (found, st1)"
      by (auto simp: record_reader_next_def split: sum.splits)
    show ?cond
    proof (cases found)
      case False
      with l have "\<exists>st'. load_next_record f st = Inr (False, st')" by simp
      then show ?thesis unfolding load_next_record_end_iff by auto
    next
      case True
      from l True have l': "load_next_record f st = Inr (True, st1)" by simp
      from next_found(1)[OF l' n] have "record_length st1 = 0"
        by (auto dest: extract_record_length)
      moreover from load_loop_found[OF l'[unfolded load_next_record_def]]
      obtain b' where "f (current_chunk st1) b' = Some (record_end_offset st1)"
        "record_end_offset st1 \<le> record_length st1"
        by auto
      ultimately show ?thesis using pos by auto
    qed
  qed
qed

theorem end_of_sequence_iff_witness:
  "record_reader_next (find_line_end (CHR ''/'')) (new_record_reader [''a/'']) =
     Inr (''a/'', \<lparr>stream = [], current_chunk = [], previous_chunks = [],
                  record_length = 2, record_end_offset = 2\<rparr>)
   \<and> fst (read_chunk (stream (new_record_reader [''a/'']))) = ''a/''
   \<and> record_reader_next (find_line_end (CHR ''/''))
        \<lparr>stream = [], current_chunk = [], previous_chunks = [],
         record_length = 2, record_end_offset = 2\<rparr> =
     Inr ([], \<lparr>stream = [], current_chunk = [], previous_chunks = [],
               record_length = 0, record_end_offset = 2\<rparr>)
   \<and> record_reader_next (find_line_end (CHR ''/''))
        \<lparr>stream = [], current_chunk = ''b'', previous_chunks = [],
         record_length = 2, record_end_offset = 2\<rparr> = Inl (Record_Error 1)"
proof -
  let ?f = "find_line_end (CHR ''/'')"
  let ?after = "\<lparr>stream = [], current_chunk = [], previous_chunks = [],
         record_length = 2, record_end_offset = 2\<rparr>"
  let ?partial = "\<lparr>stream = [], current_chunk = ''b'', previous_chunks = [],
         record_length = 2, record_end_offset = 2\<rparr>"
  have pos: "\<forall>chunk first_chunk. ?f chunk first_chunk \<noteq> Some 0"
    by (simp add: find_line_end_def)
  have 1: "record_reader_next ?f (new_record_reader [''a/'']) = Inr (''a/'', ?after)"
    by (simp add: record_reader_next_def load_next_record_def new_record_reader_def
      find_line_end_def read_chunk_def extract_record_def copy_split_record_def
      allocate_memory_def copy_to_def move_to_next_record_def share_slice_def share_slice2_def
      share_first_def numeral_eq_Suc)
  have 3: "record_reader_next ?f ?partial = Inl (Record_Error 1)"
    by (simp add: record_reader_next_def load_next_record_def find_line_end_def read_chunk_def)
  from end_of_sequence_iff[of ?f ?after] end_of_sequence_iff[of ?f "new_record_reader [''a/'']"]
    end_of_sequence_iff[of ?f ?partial] pos 1 3
  show ?thesis
    by (simp add: find_line_end_def read_chunk_def new_record_reader_def)
qed

text \<open>
  Claim C1 fails on the code where the partial record spans several chunks. The stream
  with the chunks \<open>"ab"\<close> and \<open>"cd"\<close> and no delimiter ends with four bytes of a partial
  record buffered; \<open>next\<close> fails with \<open>record_error\<close>, and the number of bytes its message
  reports is 2, the size of the current chunk alone.
\<close>

theorem truncated_record_reports_last_chunk:
  "record_reader_next (find_line_end (CHR 0x0A)) (new_record_reader [''ab'', ''cd'']) =
     Inl (Record_Error 2)
   \<and> length (concat [''ab'', ''cd'']) = 4"
  by (simp add: record_reader_next_def load_next_record_def new_record_reader_def
      find_line_end_def read_chunk_def)

subsection \<open>The line-delimited strategy\<close>

lemma find_byte_None: "(find_byte d c = None) = (d \<notin> set c)"
  by (induction c) auto

lemma find_byte_Some:
  "find_byte d c = Some i \<Longrightarrow> i < length c \<and> c ! i = d \<and> d \<notin> set (take i c)"
proof (induction c arbitrary: i)
  case Nil
  then show ?case by simp
next
  case (Cons a c)
  then show ?case by (cases i) (auto split: if_splits)
qed

lemma find_line_end_None: "(find_line_end d c b = None) = (d \<notin> set c)"
  by (simp add: find_line_end_def find_byte_None)

lemma find_line_end_Some:
  "find_line_end d c b = Some k \<Longrightarrow>
     \<exists>i. k = Suc i \<and> i < length c \<and> take k c = take i c @ [d] \<and> d \<notin> set (take i c)"
  by (auto simp: find_line_end_def take_Suc_conv_app_nth dest!: find_byte_Some)

lemma copy_chunks_ok:
  "i + length (concat bs) \<le> length buf \<Longrightarrow>
   copy_chunks bs (buf, i) =
     Inr (take i buf @ concat bs @ drop (i + length (concat bs)) buf, i + length (concat bs))"
proof (induction bs arbitrary: buf i)
  case Nil
  then show ?case by simp
next
  case (Cons b bs)
  let ?buf1 = "take i buf @ b @ drop (i + length b) buf"
  from Cons.prems have c: "copy_to b (buf, i) = Inr (?buf1, i + length b)"
    by (simp add: copy_to_def)
  from Cons.prems have len: "length ?buf1 = length buf" by simp
  from Cons.prems have "i + length b + length (concat bs) \<le> length ?buf1" by simp
  from Cons.IH[OF this] have "copy_chunks bs (?buf1, i + length b) =
     Inr (take (i + length b) ?buf1 @ concat bs @ drop (i + length b + length (concat bs)) ?buf1,
          i + length b + length (concat bs))" .
  moreover have "take (i + length b) ?buf1 = take i buf @ b"
    using Cons.prems by simp
  moreover have "drop (i + length b + length (concat bs)) ?buf1 =
      drop (i + length b + length (concat bs)) buf"
    using Cons.prems by (simp add: add.commute)
  ultimately show ?case using c by (simp add: add.assoc)
qed

lemma extract_record_ok:
  assumes "record_length st = length (concat (previous_chunks st)) + record_end_offset st"
      and "record_end_offset st \<le> length (current_chunk st)"
  shows "extract_record st =
           Inr (concat (previous_chunks st) @ take (record_end_offset st) (current_chunk st))"
proof (cases "previous_chunks st = []")
  case True
  with assms show ?thesis
    by (simp add: extract_record_def share_first_def share_slice2_def)
next
  case False
  let ?n = "length (concat (previous_chunks st))"
  have a: "copy_chunks (previous_chunks st) (allocate_memory (record_length st), 0) =
      Inr (concat (previous_chunks st) @ drop ?n (allocate_memory (record_length st)), ?n)"
    using copy_chunks_ok[of 0 "previous_chunks st" "allocate_memory (record_length st)"] assms(1)
    by (simp add: allocate_memory_def)
  have b: "copy_to (take (record_end_offset st) (current_chunk st))
       (concat (previous_chunks st) @ drop ?n (allocate_memory (record_length st)), ?n) =
      Inr (concat (previous_chunks st) @ take (record_end_offset st) (current_chunk st),
           ?n + record_end_offset st)"
    using assms by (simp add: copy_to_def allocate_memory_def)
  from False a b assms(2) show ?thesis
    by (simp add: extract_record_def copy_split_record_def)
qed

lemma next_ok:
  assumes "previous_chunks st = []"
      and "load_next_record f st = Inr (True, st1)"
      and "record_end_offset st1 \<le> length (current_chunk st1)"
  shows "record_reader_next f st =
     Inr (concat (previous_chunks st1) @ take (record_end_offset st1) (current_chunk st1),
          st1\<lparr>current_chunk := drop (record_end_offset st1) (current_chunk st1),
              previous_chunks := []\<rparr>)"
proof -
  from load_loop_found[OF assms(2)[unfolded load_next_record_def]] assms(1)
  have "record_length st1 = length (concat (previous_chunks st1)) + record_end_offset st1"
    by auto
  from extract_record_ok[OF this assms(3)] assms(2,3) show ?thesis
    by (simp add: record_reader_next_def move_to_next_record_def share_slice_def share_slice2_def)
qed

lemma load_loop_line_found:
  "[] \<notin> set (stream st) \<Longrightarrow> d \<in> set (current_chunk st @ concat (stream st)) \<Longrightarrow>
   \<exists>st1. load_loop (find_line_end d) b st = Inr (True, st1)"
proof (induction "stream st" arbitrary: st b)
  case Nil
  from Nil(1)[symmetric] Nil.prems have "d \<in> set (current_chunk st)" by simp
  then obtain k where "find_line_end d (current_chunk st) b = Some k"
    using find_line_end_None[of d "current_chunk st" b] by auto
  then show ?case by (subst load_loop.simps) simp
next
  case (Cons c cs)
  show ?case
  proof (cases "find_line_end d (current_chunk st) b")
    case (Some k)
    then show ?thesis by (subst load_loop.simps) simp
  next
    case None
    let ?st2 = "st\<lparr>stream := cs,
                   record_length := record_length st + length (current_chunk st),
                   previous_chunks := previous_chunks st @ [current_chunk st],
                   current_chunk := c\<rparr>"
    from None have "d \<notin> set (current_chunk st)" by (simp add: find_line_end_None)
    with Cons.prems Cons(2)[symmetric]
    have p: "[] \<notin> set (stream ?st2)" "d \<in> set (current_chunk ?st2 @ concat (stream ?st2))"
      "c \<noteq> []"
      by auto
    have "cs = stream ?st2" by simp
    from Cons(1)[OF this p(1,2)] obtain st1 where
      "load_loop (find_line_end d) False ?st2 = Inr (True, st1)" by blast
    with None p(3) Cons(2)[symmetric] show ?thesis
      by (subst load_loop.simps) (simp add: read_chunk_def)
  qed
qed

lemma load_loop_line_not_found:
  "[] \<notin> set (stream st) \<Longrightarrow> d \<notin> set (current_chunk st @ concat (stream st)) \<Longrightarrow>
   load_loop (find_line_end d) b st =
     (if current_chunk st = [] \<and> stream st = [] then Inr (False, st)
      else Inl (Record_Error (length (last (current_chunk st # stream st)))))"
proof (induction "stream st" arbitrary: st b)
  case Nil
  from Nil.prems have "find_line_end d (current_chunk st) b = None"
    by (simp add: find_line_end_None)
  with Nil(1)[symmetric] show ?case
    by (subst load_loop.simps) (simp add: read_chunk_def)
next
  case (Cons c cs)
  let ?st2 = "st\<lparr>stream := cs,
                 record_length := record_length st + length (current_chunk st),
                 previous_chunks := previous_chunks st @ [current_chunk st],
                 current_chunk := c\<rparr>"
  from Cons.prems have None: "find_line_end d (current_chunk st) b = None"
    by (simp add: find_line_end_None)
  from Cons.prems Cons(2)[symmetric]
  have p: "[] \<notin> set (stream ?st2)" "d \<notin> set (current_chunk ?st2 @ concat (stream ?st2))"
    "c \<noteq> []"
    by auto
  have "cs = stream ?st2" by simp
  from Cons(1)[OF this p(1,2)] p(3)
  have "load_loop (find_line_end d) False ?st2 =
      Inl (Record_Error (length (last (c # cs))))" by simp
  with None p(3) Cons(2)[symmetric] show ?case
    by (subst load_loop.simps) (simp add: read_chunk_def)
qed

lemma records_of_none: "d \<notin> set s \<Longrightarrow> records_of d acc s = []"
  by (induction s arbitrary: acc) auto

lemma records_of_first:
  "d \<notin> set p \<Longrightarrow> records_of d acc (p @ d # q) = (acc @ p @ [d]) # records_of d [] q"
  by (induction p arbitrary: acc) auto

lemma partial_record_none: "d \<notin> set s \<Longrightarrow> partial_record d acc s = acc @ s"
  by (induction s arbitrary: acc) auto

lemma partial_record_first:
  "d \<notin> set p \<Longrightarrow> partial_record d acc (p @ d # q) = partial_record d [] q"
  by (induction p arbitrary: acc) auto

lemma records_partial_concat:
  "concat (records_of d acc s) @ partial_record d acc s = acc @ s"
  by (induction s arbitrary: acc) auto

lemma partial_record_free: "d \<notin> set acc \<Longrightarrow> d \<notin> set (partial_record d acc s)"
  by (induction s arbitrary: acc) auto

lemma partial_record_empty:
  "(partial_record d acc s = []) = (if s = [] then acc = [] else last s = d)"
  by (induction s arbitrary: acc) auto

lemma records_of_terminated:
  "d \<notin> set acc \<Longrightarrow> r \<in> set (records_of d acc s) \<Longrightarrow>
     r \<noteq> [] \<and> last r = d \<and> d \<notin> set (butlast r)"
proof (induction s arbitrary: acc)
  case Nil
  then show ?case by simp
next
  case (Cons c cs)
  show ?case
  proof (cases "c = d")
    case True
    with Cons.prems have "r = acc @ [d] \<or> r \<in> set (records_of d [] cs)" by simp
    then show ?thesis
    proof
      assume "r = acc @ [d]"
      with Cons.prems(1) show ?thesis by simp
    next
      assume "r \<in> set (records_of d [] cs)"
      with Cons.IH[of "[]"] show ?thesis by simp
    qed
  next
    case False
    with Cons.prems have "d \<notin> set (acc @ [c])" "r \<in> set (records_of d (acc @ [c]) cs)"
      by simp_all
    then show ?thesis by (rule Cons.IH)
  qed
qed

lemma next_line_found:
  assumes "previous_chunks st = []" and "[] \<notin> set (stream st)"
      and "d \<in> set (current_chunk st @ concat (stream st))"
  shows "\<exists>p st'. record_reader_next (find_line_end d) st = Inr (p @ [d], st') \<and> d \<notin> set p \<and>
           p @ d # current_chunk st' @ concat (stream st') = current_chunk st @ concat (stream st) \<and>
           previous_chunks st' = [] \<and> [] \<notin> set (stream st')"
proof -
  let ?st0 = "st\<lparr>record_length := 0\<rparr>"
  from load_loop_line_found[of ?st0 d True] assms(2,3) obtain st1 where
    l: "load_next_record (find_line_end d) st = Inr (True, st1)"
    by (auto simp: load_next_record_def)
  from load_loop_found[OF l[unfolded load_next_record_def]] assms(1)
  obtain b' where
    f: "concat (previous_chunks st1) @ current_chunk st1 @ concat (stream st1) =
          current_chunk st @ concat (stream st)"
       "find_line_end d (current_chunk st1) b' = Some (record_end_offset st1)"
       "set (stream st1) \<subseteq> set (stream st)"
       "\<forall>c \<in> set (previous_chunks st1). \<exists>b''. find_line_end d c b'' = None"
    by auto
  from find_line_end_Some[OF f(2)] obtain i where
    i: "record_end_offset st1 = Suc i" "i < length (current_chunk st1)"
       "take (record_end_offset st1) (current_chunk st1) = take i (current_chunk st1) @ [d]"
       "d \<notin> set (take i (current_chunk st1))"
    by blast
  let ?p = "concat (previous_chunks st1) @ take i (current_chunk st1)"
  let ?st' = "st1\<lparr>current_chunk := drop (record_end_offset st1) (current_chunk st1),
              previous_chunks := []\<rparr>"
  from i have off: "record_end_offset st1 \<le> length (current_chunk st1)" by simp
  from next_ok[OF assms(1) l off] i(3)
  have n: "record_reader_next (find_line_end d) st = Inr (?p @ [d], ?st')" by simp
  from f(4) have "d \<notin> set (concat (previous_chunks st1))"
    by (auto simp: find_line_end_None)
  with i(4) have free: "d \<notin> set ?p" by simp
  have "take (record_end_offset st1) (current_chunk st1) @ drop (record_end_offset st1) (current_chunk st1)
      = current_chunk st1" by simp
  with i(3) have "take i (current_chunk st1) @ d # drop (record_end_offset st1) (current_chunk st1)
      = current_chunk st1" by simp
  then have "?p @ d # current_chunk ?st' @ concat (stream ?st') =
      concat (previous_chunks st1) @ current_chunk st1 @ concat (stream st1)"
    by (simp del: append_take_drop_id)
  with f(1) have split: "?p @ d # current_chunk ?st' @ concat (stream ?st') =
      current_chunk st @ concat (stream st)" by simp
  from f(3) assms(2) have "[] \<notin> set (stream ?st')" by auto
  with n free split show ?thesis
    by (intro exI[of _ ?p] exI[of _ ?st']) simp
qed

lemma next_line_not_found:
  assumes "[] \<notin> set (stream st)" and "d \<notin> set (current_chunk st @ concat (stream st))"
  shows "record_reader_next (find_line_end d) st =
     (if current_chunk st = [] \<and> stream st = [] then Inr ([], st\<lparr>record_length := 0\<rparr>)
      else Inl (Record_Error (length (last (current_chunk st # stream st)))))"
  using load_loop_line_not_found[of "st\<lparr>record_length := 0\<rparr>" d True] assms
  by (simp add: record_reader_next_def load_next_record_def)

lemma drain_line:
  "previous_chunks st = [] \<Longrightarrow> [] \<notin> set (stream st) \<Longrightarrow>
   fst (drain (find_line_end d) st) = records_of d [] (current_chunk st @ concat (stream st)) \<and>
   (\<exists>n. snd (drain (find_line_end d) st) =
     (if partial_record d [] (current_chunk st @ concat (stream st)) = [] then End_Of_Sequence
      else Failed (Record_Error n)))"
proof (induction "length (current_chunk st @ concat (stream st))" arbitrary: st rule: less_induct)
  case less
  let ?s = "current_chunk st @ concat (stream st)"
  show ?case
  proof (cases "d \<in> set ?s")
    case False
    have e: "(current_chunk st = [] \<and> stream st = []) = (?s = [])"
      using less.prems(2) by (cases "stream st") auto
    from False have "records_of d [] ?s = []" "partial_record d [] ?s = ?s"
      by (simp_all add: records_of_none partial_record_none)
    with next_line_not_found[OF less.prems(2) False] e show ?thesis
      by (subst (1 2) drain.simps) auto
  next
    case True
    from next_line_found[OF less.prems True] obtain p st' where
      n: "record_reader_next (find_line_end d) st = Inr (p @ [d], st')" and
      free: "d \<notin> set p" and
      split: "p @ d # current_chunk st' @ concat (stream st') = ?s" and
      inv: "previous_chunks st' = []" "[] \<notin> set (stream st')"
      by blast
    let ?s' = "current_chunk st' @ concat (stream st')"
    from arg_cong[OF split, of length] have "length ?s' < length ?s"
      by simp
    from less.hyps[OF this inv] obtain n' where IH:
      "fst (drain (find_line_end d) st') = records_of d [] ?s'"
      "snd (drain (find_line_end d) st') =
         (if partial_record d [] ?s' = [] then End_Of_Sequence
          else Failed (Record_Error n'))"
      by blast
    have r: "records_of d [] ?s = (p @ [d]) # records_of d [] ?s'"
      using records_of_first[OF free, of "[]" ?s'] split by simp
    have pr: "partial_record d [] ?s = partial_record d [] ?s'"
      using partial_record_first[OF free, of "[]" ?s'] split by simp
    have d: "drain (find_line_end d) st =
        ((p @ [d]) # fst (drain (find_line_end d) st'), snd (drain (find_line_end d) st'))"
      using n by (subst drain.simps) (simp split: prod.splits)
    show ?thesis
      unfolding d r pr using IH by auto
  qed
qed

text \<open>
  Claim C3, as the spec states it, fails: the records drained from the chunks \<open>"ab"\<close>,
  \<open>"c\nde"\<close> and \<open>"f\n"\<close> are not \<open>"abc"\<close> and \<open>"def"\<close>; the delimiter is not excluded.
\<close>

theorem line_example_counterexample:
  "fst (drain (find_line_end (CHR 0x0A))
          (new_record_reader [''ab'', ''c\<newline>de'', ''f\<newline>'']))
     \<noteq> [''abc'', ''def'']"
  by (simp add: record_reader_next_def load_next_record_def new_record_reader_def
      find_line_end_def read_chunk_def extract_record_def copy_split_record_def
        allocate_memory_def copy_to_def move_to_next_record_def share_slice_def share_slice2_def
        share_first_def numeral_eq_Suc)

text \<open>
  Claim C3, amended. With the line-delimited strategy for the delimiter \<open>\n\<close>, draining a
  reader over the chunks \<open>"ab"\<close>, \<open>"c\nde"\<close>, \<open>"f\n"\<close> yields the records \<open>"abc\n"\<close> and
  \<open>"def\n"\<close>, each with its delimiter, and then the end of the sequence.
\<close>

theorem line_example_amended:
  "drain (find_line_end (CHR 0x0A)) (new_record_reader [''ab'', ''c\<newline>de'', ''f\<newline>''])
     = ([''abc\<newline>'', ''def\<newline>''], End_Of_Sequence)"
  by (simp add: record_reader_next_def load_next_record_def new_record_reader_def
      find_line_end_def read_chunk_def extract_record_def copy_split_record_def
        allocate_memory_def copy_to_def move_to_next_record_def share_slice_def share_slice2_def
        share_first_def numeral_eq_Suc)

text \<open>
  Claim C2, as the spec states it, fails: the strategy is shown one chunk at a time, so a
  strategy can see a boundary in one chunking that it cannot see in another. With
  \<open>find_crlf_end\<close> the input \<open>"a\r\nb\r\n"\<close> drains to two records when it comes as one
  chunk, and to one record when it comes as the chunks \<open>"a\r"\<close> and \<open>"\nb\r\n"\<close>, where the
  first line ending lies across the chunk boundary.
\<close>

theorem rechunking_counterexample:
  "concat [[CHR ''a'', CHR 0x0D, CHR 0x0A, CHR ''b'', CHR 0x0D, CHR 0x0A]] =
     concat [[CHR ''a'', CHR 0x0D], [CHR 0x0A, CHR ''b'', CHR 0x0D, CHR 0x0A]]
   \<and> fst (drain find_crlf_end (new_record_reader
        [[CHR ''a'', CHR 0x0D, CHR 0x0A, CHR ''b'', CHR 0x0D, CHR 0x0A]])) =
     [[CHR ''a'', CHR 0x0D, CHR 0x0A], [CHR ''b'', CHR 0x0D, CHR 0x0A]]
   \<and> fst (drain find_crlf_end (new_record_reader
        [[CHR ''a'', CHR 0x0D], [CHR 0x0A, CHR ''b'', CHR 0x0D, CHR 0x0A]])) =
     [[CHR ''a'', CHR 0x0D, CHR 0x0A, CHR ''b'', CHR 0x0D, CHR 0x0A]]
   \<and> fst (drain find_crlf_end (new_record_reader
        [[CHR ''a'', CHR 0x0D, CHR 0x0A, CHR ''b'', CHR 0x0D, CHR 0x0A]])) \<noteq>
     fst (drain find_crlf_end (new_record_reader
        [[CHR ''a'', CHR 0x0D], [CHR 0x0A, CHR ''b'', CHR 0x0D, CHR 0x0A]]))"
  by (simp add: record_reader_next_def load_next_record_def new_record_reader_def
      find_crlf_end_def read_chunk_def extract_record_def copy_split_record_def
      allocate_memory_def copy_to_def move_to_next_record_def share_slice_def share_slice2_def
      share_first_def numeral_eq_Suc)

text \<open>
  Claim C2, amended. With the line-delimited strategy, for any delimiter byte: two
  sequences of non-empty chunks with the same concatenation drain to the same sequence of
  records. Both drains end with the end of the sequence or both with \<open>record_error\<close>; the
  number of bytes that error reports is not said to agree.
\<close>

theorem rechunking_invisible:
  assumes "[] \<notin> set chunks1" and "[] \<notin> set chunks2" and "concat chunks1 = concat chunks2"
  shows "fst (drain (find_line_end d) (new_record_reader chunks1)) =
         fst (drain (find_line_end d) (new_record_reader chunks2))
       \<and> (snd (drain (find_line_end d) (new_record_reader chunks1)) = End_Of_Sequence) =
         (snd (drain (find_line_end d) (new_record_reader chunks2)) = End_Of_Sequence)
       \<and> (snd (drain (find_line_end d) (new_record_reader chunks1)) = End_Of_Sequence \<or>
          (\<exists>n. snd (drain (find_line_end d) (new_record_reader chunks1)) =
                 Failed (Record_Error n)))
       \<and> (snd (drain (find_line_end d) (new_record_reader chunks2)) = End_Of_Sequence \<or>
          (\<exists>n. snd (drain (find_line_end d) (new_record_reader chunks2)) =
                 Failed (Record_Error n)))"
proof -
  have a: "previous_chunks (new_record_reader c) = []" "stream (new_record_reader c) = c"
    "current_chunk (new_record_reader c) = []" for c
    by (simp_all add: new_record_reader_def)
  from drain_line[of "new_record_reader chunks1" d] drain_line[of "new_record_reader chunks2" d]
    assms show ?thesis
    unfolding a by (auto split: if_splits)
qed

theorem rechunking_invisible_witness:
  "[] \<notin> set [''ab/c'', ''d/ef'', ''gh/i''] \<and>
   concat [''ab/c'', ''d/ef'', ''gh/i''] =
     concat [''a'', ''b'', ''/'', ''c'', ''d'', ''/'', ''e'', ''f'', ''g'', ''h'', ''/'', ''i''] \<and>
   fst (drain (find_line_end (CHR ''/'')) (new_record_reader [''ab/c'', ''d/ef'', ''gh/i''])) =
     [''ab/'', ''cd/'', ''efgh/''] \<and>
   fst (drain (find_line_end (CHR ''/'')) (new_record_reader
     [''a'', ''b'', ''/'', ''c'', ''d'', ''/'', ''e'', ''f'', ''g'', ''h'', ''/'', ''i''])) =
     [''ab/'', ''cd/'', ''efgh/'']"
proof -
  have 1: "fst (drain (find_line_end (CHR ''/'')) (new_record_reader [''ab/c'', ''d/ef'', ''gh/i''])) =
     [''ab/'', ''cd/'', ''efgh/'']"
    by (simp add: record_reader_next_def load_next_record_def new_record_reader_def
      find_line_end_def read_chunk_def extract_record_def copy_split_record_def
        allocate_memory_def copy_to_def move_to_next_record_def share_slice_def share_slice2_def
        share_first_def numeral_eq_Suc)
  from rechunking_invisible[of "[''ab/c'', ''d/ef'', ''gh/i'']"
    "[''a'', ''b'', ''/'', ''c'', ''d'', ''/'', ''e'', ''f'', ''g'', ''h'', ''/'', ''i'']" "CHR ''/''"] 1
  show ?thesis by simp
qed

text \<open>
  Claim C5, as the spec states it, fails on an input that does not end with the
  delimiter: the drain of the single chunk \<open>"ab"\<close> stops with the truncation error and has
  produced no record.
\<close>

theorem drain_concat_counterexample:
  "concat (fst (drain (find_line_end (CHR 0x0A)) (new_record_reader [''ab'']))) \<noteq> concat [''ab'']"
  by (simp add: record_reader_next_def load_next_record_def new_record_reader_def
      find_line_end_def read_chunk_def)

text \<open>
  Claim C5, amended. For every input split into non-empty chunks and drained with the
  line-delimited strategy: every record ends with the delimiter, which occurs nowhere
  else in it; the records concatenated, followed by a delimiter-free tail, are the input;
  the drain ends with the end of the sequence when the tail is empty and with
  \<open>record_error\<close> otherwise. So when the input is empty or ends with the delimiter, the
  drain ends with the end of the sequence and the records concatenated are the input.
\<close>

theorem drain_concat_records:
  assumes "[] \<notin> set chunks"
      and "drain (find_line_end d) (new_record_reader chunks) = (records, e)"
  shows "(\<forall>r \<in> set records. r \<noteq> [] \<and> last r = d \<and> d \<notin> set (butlast r))
       \<and> (\<exists>tail. d \<notin> set tail \<and> concat records @ tail = concat chunks \<and>
            (e = End_Of_Sequence) = (tail = []) \<and>
            (tail \<noteq> [] \<longrightarrow> (\<exists>n. e = Failed (Record_Error n))))
       \<and> (concat chunks = [] \<or> last (concat chunks) = d \<longrightarrow>
            e = End_Of_Sequence \<and> concat records = concat chunks)"
proof -
  let ?s = "concat chunks"
  have a: "previous_chunks (new_record_reader chunks) = []"
    "stream (new_record_reader chunks) = chunks"
    "current_chunk (new_record_reader chunks) = []"
    by (simp_all add: new_record_reader_def)
  from drain_line[of "new_record_reader chunks" d] assms obtain n where
    k: "records = records_of d [] ?s"
       "e = (if partial_record d [] ?s = [] then End_Of_Sequence else Failed (Record_Error n))"
    unfolding a by auto
  have 1: "\<forall>r \<in> set records. r \<noteq> [] \<and> last r = d \<and> d \<notin> set (butlast r)"
    using records_of_terminated[of d "[]" _ ?s] k(1) by simp
  have c: "concat records @ partial_record d [] ?s = ?s"
    using records_partial_concat[of d "[]" ?s] k(1) by simp
  have f: "d \<notin> set (partial_record d [] ?s)"
    by (rule partial_record_free) simp
  have 2: "\<exists>tail. d \<notin> set tail \<and> concat records @ tail = concat chunks \<and>
            (e = End_Of_Sequence) = (tail = []) \<and>
            (tail \<noteq> [] \<longrightarrow> (\<exists>n. e = Failed (Record_Error n)))"
    using c f k(2) by (intro exI[of _ "partial_record d [] ?s"]) simp
  have "partial_record d [] ?s = []" if "concat chunks = [] \<or> last (concat chunks) = d"
    using that by (auto simp: partial_record_empty)
  with c k(2) have 3: "concat chunks = [] \<or> last (concat chunks) = d \<longrightarrow>
            e = End_Of_Sequence \<and> concat records = concat chunks"
    by auto
  from 1 2 3 show ?thesis by blast
qed

theorem drain_concat_records_witness:
  "[] \<notin> set [''a'', ''b/cd'', ''/'', ''e''] \<and>
   drain (find_line_end (CHR ''/'')) (new_record_reader [''a'', ''b/cd'', ''/'', ''e'']) =
     ([''ab/'', ''cd/''], Failed (Record_Error 1)) \<and>
   concat [''ab/'', ''cd/''] @ ''e'' = concat [''a'', ''b/cd'', ''/'', ''e''] \<and>
   [] \<notin> set [''a'', ''b/cd'', ''/''] \<and>
   drain (find_line_end (CHR ''/'')) (new_record_reader [''a'', ''b/cd'', ''/'']) =
     ([''ab/'', ''cd/''], End_Of_Sequence) \<and>
   concat [''ab/'', ''cd/''] = concat [''a'', ''b/cd'', ''/'']"
proof -
  have 1: "drain (find_line_end (CHR ''/'')) (new_record_reader [''a'', ''b/cd'', ''/'', ''e'']) =
     ([''ab/'', ''cd/''], Failed (Record_Error 1))"
    by (simp add: record_reader_next_def load_next_record_def new_record_reader_def
      find_line_end_def read_chunk_def extract_record_def copy_split_record_def
        allocate_memory_def copy_to_def move_to_next_record_def share_slice_def share_slice2_def
        share_first_def numeral_eq_Suc)
  have 2: "drain (find_line_end (CHR ''/'')) (new_record_reader [''a'', ''b/cd'', ''/'']) =
     ([''ab/'', ''cd/''], End_Of_Sequence)"
    by (simp add: record_reader_next_def load_next_record_def new_record_reader_def
      find_line_end_def read_chunk_def extract_record_def copy_split_record_def
        allocate_memory_def copy_to_def move_to_next_record_def share_slice_def share_slice2_def
        share_first_def numeral_eq_Suc)
  from drain_concat_records[OF _ 1] drain_concat_records[OF _ 2] 1 2
  show ?thesis by simp
qed

section \<open>Properties of \<open>immutable_string::split\<close>\<close>

lemma runs_between_not_Nil: "runs_between sep s \<noteq> []"
  by (induction s) (auto split: list.splits)

lemma runs_between_no_separator: "sep \<notin> set xs \<Longrightarrow> runs_between sep xs = [xs]"
  by (induction xs) auto

lemma runs_between_first_separator:
  "sep \<notin> set xs \<Longrightarrow> runs_between sep (xs @ sep # ys) = xs # runs_between sep ys"
  by (induction xs) auto

lemma join_runs_Cons:
  "runs \<noteq> [] \<Longrightarrow> join_runs sep (run # runs) = run @ sep # join_runs sep runs"
  by (cases runs) auto

lemma join_runs_between: "join_runs sep (runs_between sep s) = s"
proof (induction s)
  case Nil
  then show ?case by simp
next
  case (Cons c cs)
  obtain r rs where rb: "runs_between sep cs = r # rs"
    using runs_between_not_Nil[of sep cs] by (cases "runs_between sep cs") auto
  have "join_runs sep ((c # r) # rs) = c # join_runs sep (r # rs)"
    by (cases rs) auto
  with Cons rb show ?case
    by (auto simp: join_runs_Cons)
qed

lemma runs_between_free: "r \<in> set (runs_between sep s) \<Longrightarrow> sep \<notin> set r"
  by (induction s arbitrary: r) (auto split: if_splits list.splits)

lemma split_loop_runs:
  "offset \<le> char_idx \<Longrightarrow> char_idx \<le> length s \<Longrightarrow>
   sep \<notin> set (take (char_idx - offset) (drop offset s)) \<Longrightarrow>
   split_loop sep s char_idx offset out =
     Inr (out @ filter (\<lambda>r. r \<noteq> []) (runs_between sep (drop offset s)))"
proof (induction sep s char_idx offset out rule: split_loop.induct)
  case (1 sep s char_idx offset out)
  let ?run = "take (char_idx - offset) (drop offset s)"
  show ?case
  proof (cases "char_idx < length s")
    case False
    with "1.prems" have len: "char_idx = length s" by simp
    with "1.prems" have "sep \<notin> set (drop offset s)" by simp
    then have r: "runs_between sep (drop offset s) = [drop offset s]"
      by (rule runs_between_no_separator)
    show ?thesis
      using len "1.prems"(1) r
      by (subst split_loop.simps)
         (auto simp: remove_prefix_def share_slice_def share_slice2_def)
  next
    case lt: True
    have dr: "drop offset s = ?run @ s ! char_idx # drop (Suc char_idx) s"
    proof -
      have "drop (char_idx - offset) (drop offset s) = drop char_idx s"
        using "1.prems"(1) by simp
      also have "\<dots> = s ! char_idx # drop (Suc char_idx) s"
        using lt by (simp add: Cons_nth_drop_Suc)
      finally show ?thesis
        using append_take_drop_id[of "char_idx - offset" "drop offset s"] by simp
    qed
    show ?thesis
    proof (cases "s ! char_idx = sep")
      case sep: True
      have rb: "runs_between sep (drop offset s) = ?run # runs_between sep (drop (Suc char_idx) s)"
        using dr sep runs_between_first_separator[OF "1.prems"(3)] by metis
      have sl: "share_slice2 s offset (char_idx - offset) = Inr ?run"
        using lt "1.prems"(1) by (simp add: share_slice2_def)
      have run_empty: "?run = [] \<longleftrightarrow> offset = char_idx"
        using lt "1.prems"(1) by auto
      show ?thesis
      proof (cases "offset = char_idx")
        case True
        have "split_loop sep s (char_idx + 1) (char_idx + 1) out =
          Inr (out @ filter (\<lambda>r. r \<noteq> []) (runs_between sep (drop (char_idx + 1) s)))"
          using "1.IH"(2)[OF lt sep] True lt by simp
        then show ?thesis
          using lt sep True rb run_empty by (subst split_loop.simps) simp
      next
        case False
        have "split_loop sep s (char_idx + 1) (char_idx + 1) (out @ [?run]) =
          Inr ((out @ [?run]) @ filter (\<lambda>r. r \<noteq> []) (runs_between sep (drop (char_idx + 1) s)))"
          using "1.IH"(1)[OF lt sep False sl] lt by simp
        then show ?thesis
          using lt sep False rb run_empty sl by (subst split_loop.simps) simp
      qed
    next
      case nsep: False
      have "take (char_idx + 1 - offset) (drop offset s) = ?run @ [s ! char_idx]"
      proof -
        have "char_idx + 1 - offset = Suc (char_idx - offset)"
          using "1.prems"(1) by simp
        moreover have "char_idx - offset < length (drop offset s)"
          using lt "1.prems"(1) by simp
        moreover have "drop offset s ! (char_idx - offset) = s ! char_idx"
          using lt "1.prems"(1) by simp
        ultimately show ?thesis
          by (simp add: take_Suc_conv_app_nth)
      qed
      then have "sep \<notin> set (take (char_idx + 1 - offset) (drop offset s))"
        using nsep "1.prems"(3) by auto
      then have "split_loop sep s (char_idx + 1) offset out =
          Inr (out @ filter (\<lambda>r. r \<noteq> []) (runs_between sep (drop offset s)))"
        using "1.IH"(3)[OF lt nsep] lt "1.prems"(1) by simp
      then show ?thesis
        using lt nsep by (subst split_loop.simps) simp
    qed
  qed
qed

text \<open>
  Claim C8. For every string and every separator byte, \<open>split\<close> succeeds and returns the
  non-empty runs of bytes between the occurrences of the separator, from left to right:
  the runs \<open>runs_between\<close> are free of the separator and give the string back when the
  separator is put between them (so each is a maximal run), and \<open>split\<close> returns those of
  them that are not empty. In particular \<open>split('a', "xayaz")\<close> is \<open>["x", "y", "z"]\<close> and
  \<open>split('a', "aaxa")\<close> is \<open>["x"]\<close>.
\<close>

theorem split_yields_nonempty_runs:
  "immutable_string_split separator s =
     Inr (filter (\<lambda>run. run \<noteq> []) (runs_between separator s))
   \<and> join_runs separator (runs_between separator s) = s
   \<and> (\<forall>run \<in> set (runs_between separator s). separator \<notin> set run)
   \<and> immutable_string_split (CHR ''a'') ''xayaz'' = Inr [''x'', ''y'', ''z'']
   \<and> immutable_string_split (CHR ''a'') ''aaxa'' = Inr [''x'']"
proof -
  have general: "immutable_string_split sep t =
      Inr (filter (\<lambda>run. run \<noteq> []) (runs_between sep t))" for sep t
    using split_loop_runs[of 0 0 t sep "[]"] by (simp add: immutable_string_split_def)
  have "immutable_string_split (CHR ''a'') ''xayaz'' = Inr [''x'', ''y'', ''z'']"
    by (simp add: general)
  moreover have "immutable_string_split (CHR ''a'') ''aaxa'' = Inr [''x'']"
    by (simp add: general)
  ultimately show ?thesis
    using general[of separator s] join_runs_between[of separator s]
      runs_between_free[of _ separator s]
    by blast
qed

theorem split_yields_nonempty_runs_witness:
  "immutable_string_split (CHR ''b'') ''bbxbyyb'' = Inr [''x'', ''yy'']
   \<and> runs_between (CHR ''b'') ''bbxbyyb'' = [[], [], ''x'', ''yy'', []]
   \<and> join_runs (CHR ''b'') [[], [], ''x'', ''yy'', []] = ''bbxbyyb''"
  using split_yields_nonempty_runs[of "CHR ''b''" "''bbxbyyb''"]
  by simp

section \<open>Properties of the counting data source\<close>

lemma produce_Suc_fst:
  "fst (produce (Suc n) src) =
     fst (count_data_source_next src) # fst (produce n (snd (count_data_source_next src)))"
  by (simp split: prod.splits)

lemma count_next_fst:
  "fst (count_data_source_next src) =
     Some (case field_name src of
             Some name \<Rightarrow> Data_Dict [(name, Int64 (counter src))]
           | None \<Rightarrow> Int64 (counter src))"
  by (simp add: count_data_source_next_def split: option.splits)

lemma count_next_snd:
  "snd (count_data_source_next src) = src\<lparr>counter := counter src + 1\<rparr>"
  by (simp add: count_data_source_next_def split: option.splits)

lemma produce_same_counter:
  "counter a = counter b \<Longrightarrow> field_name a = field_name b \<Longrightarrow>
   fst (produce n a) = fst (produce n b)"
proof (induction n arbitrary: a b)
  case 0
  then show ?case by simp
next
  case (Suc n)
  have "fst (produce n (a\<lparr>counter := counter a + 1\<rparr>)) = fst (produce n (b\<lparr>counter := counter b + 1\<rparr>))"
    using Suc.prems by (intro Suc.IH) simp_all
  with Suc.prems show ?case
    by (simp only: produce_Suc_fst count_next_fst count_next_snd)
qed

lemma produce_length: "length (fst (produce n src)) = n"
  by (induction n arbitrary: src) (simp_all add: produce_Suc_fst del: produce.simps(2))

lemma produce_no_end: "None \<notin> set (fst (produce n src))"
  by (induction n arbitrary: src) (simp_all add: produce_Suc_fst count_next_fst del: produce.simps(2))

text \<open>
  Claim C10. In every state \<open>next\<close> of the counting source returns a value, never the
  end-of-data signal: the current counter, as the only entry of a dictionary under the
  field name when one is set and as a bare integer otherwise; and the counter moves on
  by one. So any number of calls returns that many values, none of them the end of data.
\<close>

theorem count_next_never_ends:
  "count_data_source_next src =
     (Some (case field_name src of
              Some name \<Rightarrow> Data_Dict [(name, Int64 (counter src))]
            | None \<Rightarrow> Int64 (counter src)),
      src\<lparr>counter := counter src + 1\<rparr>)
   \<and> fst (count_data_source_next src) \<noteq> None
   \<and> length (fst (produce n src)) = n
   \<and> None \<notin> set (fst (produce n src))"
  by (simp add: produce_length produce_no_end count_data_source_next_def split: option.splits)

theorem count_next_never_ends_witness:
  "count_data_source_next (new_count_data_source 5 (Some ''id'')) =
     (Some (Data_Dict [(''id'', Int64 5)]),
      \<lparr>start = 5, field_name = Some ''id'', counter = 6\<rparr>)
   \<and> count_data_source_next (new_count_data_source 5 None) =
     (Some (Int64 5), \<lparr>start = 5, field_name = None, counter = 6\<rparr>)
   \<and> fst (produce 2 (new_count_data_source 5 None)) = [Some (Int64 5), Some (Int64 6)]"
  using count_next_never_ends[of "new_count_data_source 5 (Some ''id'')" 0]
        count_next_never_ends[of "new_count_data_source 5 None" 2]
  by (simp add: new_count_data_source_def count_data_source_next_def numeral_2_eq_2)

text \<open>
  Claim C9. In every state of a counting source, when \<open>record_position\<close> writes to a new
  tape and a fresh instance of the source (any start value, the same field name) calls
  \<open>reload_position\<close> on that tape read from its start, the reload succeeds and the fresh
  instance then produces the values the original instance produces from where it is.
\<close>

theorem record_then_reload_same_sequence:
  "(case reload_position (new_count_data_source start_value (field_name src))
           (tape_rewind (record_position src new_tape)) of
      Inl e \<Rightarrow> False
    | Inr (restored, t') \<Rightarrow> fst (produce n restored) = fst (produce n src))"
proof -
  let ?fresh = "new_count_data_source start_value (field_name src)"
  have r: "reload_position ?fresh (tape_rewind (record_position src new_tape)) =
      Inr (?fresh\<lparr>counter := counter src\<rparr>,
       \<lparr>storage = [Int64 (counter src)], read_cursor = 1\<rparr>)"
    by (simp add: reload_position_def tape_rewind_def record_position_def new_tape_def
        tape_record_def tape_read_int64_def)
  have "fst (produce n (?fresh\<lparr>counter := counter src\<rparr>)) = fst (produce n src)"
    by (rule produce_same_counter) (simp_all add: new_count_data_source_def)
  with r show ?thesis
    by simp
qed

theorem record_then_reload_same_sequence_witness:
  "reload_position (new_count_data_source 0 None)
     (tape_rewind (record_position \<lparr>start = 5, field_name = None, counter = 8\<rparr> new_tape))
     = Inr (\<lparr>start = 0, field_name = None, counter = 8\<rparr>,
            \<lparr>storage = [Int64 8], read_cursor = 1\<rparr>)
   \<and> fst (produce 2 \<lparr>start = 0, field_name = None, counter = 8\<rparr>) =
      fst (produce 2 \<lparr>start = 5, field_name = None, counter = 8\<rparr>)
   \<and> fst (produce 2 \<lparr>start = 5, field_name = None, counter = 8\<rparr>) = [Some (Int64 8), Some (Int64 9)]"
  using record_then_reload_same_sequence[of 0 "\<lparr>start = 5, field_name = None, counter = 8\<rparr>" 2]
  by (simp add: new_count_data_source_def count_data_source_next_def numeral_2_eq_2
      reload_position_def tape_rewind_def record_position_def new_tape_def
      tape_record_def tape_read_int64_def)

text \<open>
  Claim C7, as the spec states it, fails: a counting source that starts at 5 and has
  produced 5, 6 and 7 holds the counter 8, and \<open>record_position\<close> writes 8, not 7.
\<close>

theorem count_example_counterexample:
  "fst (produce 3 (new_count_data_source 5 None)) = [Some (Int64 5), Some (Int64 6), Some (Int64 7)]
   \<and> storage (record_position (snd (produce 3 (new_count_data_source 5 None))) new_tape) \<noteq> [Int64 7]"
  by (simp add: new_count_data_source_def count_data_source_next_def numeral_3_eq_3
      record_position_def tape_record_def new_tape_def)


text \<open>
  Claim C7, amended. A counting source that starts at 5 and has produced 5, 6 and 7 has
  \<open>record_position\<close> write 8, the value it is about to produce, and a fresh instance that
  reloads this tape produces 8, 9 and 10. A fresh instance whose \<open>reload_position\<close> reads 7
  produces 7, 8 and 9.
\<close>

theorem count_example_amended:
  "fst (produce 3 (new_count_data_source 5 None)) = [Some (Int64 5), Some (Int64 6), Some (Int64 7)]
   \<and> storage (record_position (snd (produce 3 (new_count_data_source 5 None))) new_tape) = [Int64 8]
   \<and> (\<exists>restored t'.
        reload_position (new_count_data_source 5 None)
          (tape_rewind (record_position (snd (produce 3 (new_count_data_source 5 None))) new_tape))
          = Inr (restored, t')
        \<and> fst (produce 3 restored) = [Some (Int64 8), Some (Int64 9), Some (Int64 10)])
   \<and> (\<exists>restored t'.
        reload_position (new_count_data_source 5 None) \<lparr>storage = [Int64 7], read_cursor = 0\<rparr>
          = Inr (restored, t')
        \<and> fst (produce 3 restored) = [Some (Int64 7), Some (Int64 8), Some (Int64 9)])"
  by (simp add: new_count_data_source_def count_data_source_next_def numeral_3_eq_3
      record_position_def tape_record_def new_tape_def reload_position_def tape_rewind_def
      tape_read_int64_def)

end
